theory Spec2Isabelle
  imports Complex_Main "HOL-Library.Char_ord" "HOL-Library.List_Lexorder"
    "HOL-Library.Product_Lexorder"
begin

section \<open>Text primitives\<close>

text \<open>
  A Python \<open>str\<close> is modelled as a \<open>string\<close>; each \<open>char\<close> stands for one code point
  below 256 (ASCII and Latin-1). On these code points \<open>str.isspace\<close> (which is also the
  class \<open>\s\<close> of \<open>re\<close> and what \<open>str.strip()\<close> removes) holds for
  9-13, 28-31, 32, 133 and 160, and \<open>str.lower\<close> adds 32 to \<open>A-Z\<close> and to 192-222 except 215.
  Comparison of strings is Python's: lexicographic by code point.
\<close>

definition isspace :: "char \<Rightarrow> bool" where
  "isspace c = (of_char c \<in> {9, 10, 11, 12, 13, 28, 29, 30, 31, 32, 133, 160 :: nat})"

definition lower_char :: "char \<Rightarrow> char" where
  "lower_char c =
     (let n = (of_char c :: nat)
      in if (65 \<le> n \<and> n \<le> 90) \<or> (192 \<le> n \<and> n \<le> 222 \<and> n \<noteq> 215)
         then char_of (n + 32) else c)"

definition lower :: "string \<Rightarrow> string" where
  "lower s = map lower_char s"

text \<open>
  \<open>str.upper\<close> on the same code points: 32 is subtracted from \<open>a-z\<close> and from 224-254
  except 247. The three Latin-1 letters whose upper case is not a single code point below
  256 (181, 223, 255) are left as they are; the program compares upper-cased text only
  with \<open>"M"\<close> and \<open>"A"\<close>, which none of them yields.
\<close>

definition upper_char :: "char \<Rightarrow> char" where
  "upper_char c =
     (let n = (of_char c :: nat)
      in if (97 \<le> n \<and> n \<le> 122) \<or> (224 \<le> n \<and> n \<le> 254 \<and> n \<noteq> 247)
         then char_of (n - 32) else c)"

definition upper :: "string \<Rightarrow> string" where
  "upper s = map upper_char s"

definition lstrip :: "string \<Rightarrow> string" where
  "lstrip s = dropWhile isspace s"

definition rstrip :: "string \<Rightarrow> string" where
  "rstrip s = rev (dropWhile isspace (rev s))"

definition strip :: "string \<Rightarrow> string" where
  "strip s = rstrip (lstrip s)"

definition startswith :: "string \<Rightarrow> string \<Rightarrow> bool" where
  "startswith s p = (take (length p) s = p)"

definition endswith :: "string \<Rightarrow> string \<Rightarrow> bool" where
  "endswith s p = (length p \<le> length s \<and> drop (length s - length p) s = p)"

text \<open>\<open>s.split(sep)\<close> for a one-character separator: always at least one piece.\<close>

fun split_on :: "char \<Rightarrow> string \<Rightarrow> string list" where
  "split_on sep [] = [[]]"
| "split_on sep (c # cs) =
     (if c = sep then [] # split_on sep cs
      else (case split_on sep cs of
              [] \<Rightarrow> [[c]]
            | p # ps \<Rightarrow> (c # p) # ps))"

text \<open>\<open>sep.join(parts)\<close>.\<close>

fun join :: "string \<Rightarrow> string list \<Rightarrow> string" where
  "join sep [] = []"
| "join sep [p] = p"
| "join sep (p # q # ps) = p @ sep @ join sep (q # ps)"

section \<open>Contacts and the contact file\<close>

text \<open>
  A contact is the dictionary with the five keys of \<open>CSV_FIELDS\<close>; \<open>favorite\<close> is a
  boolean once a contact has been read or built.
\<close>

record contact =
  name :: string
  phone :: string
  email :: string
  tags :: string
  favorite :: bool

definition CSV_FIELDS :: "string list" where
  "CSV_FIELDS = [''name'', ''phone'', ''email'', ''tags'', ''favorite'']"

text \<open>
  The contact file is modelled as what \<open>csv.reader\<close> yields from it: a sequence of rows,
  each a list of fields, a blank line being the empty row. \<open>Unreadable\<close> marks the point
  where the reader raises (a decoding or CSV error). The quoting rules of the \<open>csv\<close> module
  carry every field unchanged from the writer to the reader, with one exception that is
  modelled below: the reader raises on a field longer than \<open>csv.field_size_limit()\<close>. A
  file that does not exist is \<open>None\<close>.
\<close>

datatype line = Row "string list" | Unreadable

type_synonym csv_content = "line list"

text \<open>
  \<open>csv.DictReader.__next__\<close>: \<open>dict(zip(fieldnames, row))\<close>, where a later column of the
  same name wins, then \<open>restval = None\<close> for the field names a short row leaves out. The
  value \<open>Some None\<close> is Python's \<open>None\<close> stored under a key.
\<close>

definition dict_row :: "string list \<Rightarrow> string list \<Rightarrow> (string \<rightharpoonup> string option)" where
  "dict_row fieldnames row =
     fold (\<lambda>key d. d(key \<mapsto> None)) (drop (length row) fieldnames)
       (map_of (rev (zip fieldnames (map Some row))))"

text \<open>
  \<open>row.get(k, "").strip() if row.get(k, "") is not None else ""\<close>
\<close>

definition row_field :: "(string \<rightharpoonup> string option) \<Rightarrow> string \<Rightarrow> string" where
  "row_field d k =
     (case (case d k of None \<Rightarrow> Some [] | Some v \<Rightarrow> v) of
        None \<Rightarrow> []
      | Some s \<Rightarrow> strip s)"

definition truthy_words :: "string list" where
  "truthy_words = [''1'', ''true'', ''yes'', ''y'']"

text \<open>The body of the loop of \<open>read_contacts\<close> for one row: the contact, if it is kept.\<close>

definition contact_of_row :: "string list \<Rightarrow> string list \<Rightarrow> contact option" where
  "contact_of_row fieldnames row =
     (let d = dict_row fieldnames row;
          nm = row_field d ''name''
      in if nm \<noteq> []
         then Some \<lparr> name = nm,
                     phone = row_field d ''phone'',
                     email = row_field d ''email'',
                     tags = row_field d ''tags'',
                     favorite = (lower (strip (row_field d ''favorite'')) \<in> set truthy_words) \<rparr>
         else None)"

text \<open>
  The loop over the reader. Blank rows are skipped by \<open>DictReader\<close>; when the reader
  raises, the \<open>except Exception\<close> of \<open>read_contacts\<close> ends the loop and the contacts
  collected so far are returned.
\<close>

fun read_rows :: "string list \<Rightarrow> csv_content \<Rightarrow> contact list" where
  "read_rows fieldnames [] = []"
| "read_rows fieldnames (Unreadable # rest) = []"
| "read_rows fieldnames (Row row # rest) =
     (if row = [] then read_rows fieldnames rest
      else (case contact_of_row fieldnames row of
              None \<Rightarrow> read_rows fieldnames rest
            | Some c \<Rightarrow> c # read_rows fieldnames rest))"

text \<open>
  \<open>read_contacts\<close>: a missing file gives the empty list (\<open>FileNotFoundError\<close>); the
  first row of the file, whatever it is, gives the field names.
\<close>

fun read_contacts :: "csv_content option \<Rightarrow> contact list" where
  "read_contacts None = []"
| "read_contacts (Some []) = []"
| "read_contacts (Some (Unreadable # rest)) = []"
| "read_contacts (Some (Row header # rest)) = read_rows header rest"

text \<open>What \<open>write_contacts\<close> puts into the file: the header, then one row per contact.\<close>

definition row_of_contact :: "contact \<Rightarrow> string list" where
  "row_of_contact c =
     [name c, phone c, email c, tags c, (if favorite c then ''1'' else ''0'')]"

text \<open>
  The writer sets no limit on the length of a field, the reader does: 131072 characters
  unless \<open>csv.field_size_limit\<close> is called, which the program never does. A written row
  with a longer field is a point where the reader raises.
\<close>

definition field_size_limit :: int where
  "field_size_limit = 131072"

definition readable :: "string list \<Rightarrow> bool" where
  "readable row = list_all (\<lambda>field. int (length field) \<le> field_size_limit) row"

definition written_row :: "contact \<Rightarrow> line" where
  "written_row c = (if readable (row_of_contact c) then Row (row_of_contact c) else Unreadable)"

definition render_contacts :: "contact list \<Rightarrow> csv_content" where
  "render_contacts contacts = Row CSV_FIELDS # map written_row contacts"

section \<open>Snapshot, backups and undo\<close>

text \<open>
  The files the program owns: the contact file, the snapshot file (a JSON array of
  contacts, which \<open>json.dump\<close> and \<open>json.load\<close> carry unchanged) and the backup
  directory, a list of named files. Storage failures other than a missing file are not
  modelled: every write and copy succeeds.
\<close>

record store =
  csv_file :: "csv_content option"
  prev_snapshot :: "contact list option"
  backup_dir :: "(string \<times> csv_content) list"

text \<open>The clock: what \<open>datetime.now()\<close> returns.\<close>

record timestamp =
  year :: nat
  month :: nat
  day :: nat
  hour :: nat
  minute :: nat
  second :: nat

definition digit :: "nat \<Rightarrow> char" where
  "digit d = ''0123456789'' ! (d mod 10)"

definition pad2 :: "nat \<Rightarrow> string" where
  "pad2 n = [digit (n div 10), digit n]"

definition pad4 :: "nat \<Rightarrow> string" where
  "pad4 n = [digit (n div 1000), digit (n div 100), digit (n div 10), digit n]"

text \<open>\<open>strftime("%Y%m%d")\<close> and \<open>strftime("%Y%m%d_%H%M%S")\<close>, for years of four digits.\<close>

definition strftime_date :: "timestamp \<Rightarrow> string" where
  "strftime_date t = pad4 (year t) @ pad2 (month t) @ pad2 (day t)"

definition strftime_stamp :: "timestamp \<Rightarrow> string" where
  "strftime_stamp t = strftime_date t @ ''_'' @ pad2 (hour t) @ pad2 (minute t) @ pad2 (second t)"

definition backup_name :: "timestamp \<Rightarrow> string" where
  "backup_name t = ''contacts_backup_'' @ strftime_stamp t @ ''.csv''"

text \<open>\<open>shutil.copy2\<close> into the backup directory: a file of that name is overwritten.\<close>

fun copy_to :: "string \<Rightarrow> csv_content \<Rightarrow> (string \<times> csv_content) list \<Rightarrow> (string \<times> csv_content) list" where
  "copy_to fname content [] = [(fname, content)]"
| "copy_to fname content ((f, c) # files) =
     (if f = fname then (f, content) # files else (f, c) # copy_to fname content files)"

definition existing_for_today :: "string \<Rightarrow> (string \<times> csv_content) list \<Rightarrow> bool" where
  "existing_for_today today_str files =
     list_ex (\<lambda>fname. startswith fname (''contacts_backup_'' @ today_str @ ''_'')
                       \<and> endswith fname ''.csv'')
       (map fst files)"

text \<open>
  \<open>write_contacts\<close>. The clock is read twice, for the date that is looked for among the
  backups (\<open>now1\<close>) and for the name of the new backup (\<open>now2\<close>).
\<close>

definition write_contacts :: "timestamp \<Rightarrow> timestamp \<Rightarrow> contact list \<Rightarrow> store \<Rightarrow> store" where
  "write_contacts now1 now2 contacts st =
     (let old = read_contacts (csv_file st);
          st1 = st\<lparr>prev_snapshot := Some old\<rparr>;
          today_str = strftime_date now1;
          st2 = (case csv_file st1 of
                   None \<Rightarrow> st1
                 | Some content \<Rightarrow>
                     if \<not> existing_for_today today_str (backup_dir st1)
                     then st1\<lparr>backup_dir := copy_to (backup_name now2) content (backup_dir st1)\<rparr>
                     else st1)
      in st2\<lparr>csv_file := Some (render_contacts contacts)\<rparr>)"



text \<open>
  \<open>undo_last_write\<close>. \<open>load_prev_snapshot\<close> returns the content of the snapshot file,
  \<open>None\<close> when there is none; \<open>if not prev\<close> is taken by \<open>None\<close> and by the empty list.
\<close>

datatype undo_result = NoSnapshotError | UndoSuccessful

definition load_prev_snapshot :: "store \<Rightarrow> contact list option" where
  "load_prev_snapshot st = prev_snapshot st"

definition undo_last_write :: "timestamp \<Rightarrow> timestamp \<Rightarrow> store \<Rightarrow> undo_result \<times> store" where
  "undo_last_write now1 now2 st =
     (case load_prev_snapshot st of
        None \<Rightarrow> (NoSnapshotError, st)
      | Some prev \<Rightarrow>
          if prev = [] then (NoSnapshotError, st)
          else (UndoSuccessful, (write_contacts now1 now2 prev st)\<lparr>prev_snapshot := None\<rparr>))"


section \<open>The data-model invariants and sequences of writes\<close>

text \<open>
  The invariants of the data model: a contact has a name, and its text fields carry no
  surrounding whitespace.
\<close>

definition stripped :: "string \<Rightarrow> bool" where
  "stripped s = (strip s = s)"

definition well_formed :: "contact \<Rightarrow> bool" where
  "well_formed c =
     (name c \<noteq> [] \<and> stripped (name c) \<and> stripped (phone c) \<and> stripped (email c)
      \<and> stripped (tags c))"

text \<open>A contact none of whose text fields is longer than the reader accepts.\<close>

definition within_limit :: "contact \<Rightarrow> bool" where
  "within_limit c =
     (int (length (name c)) \<le> field_size_limit \<and> int (length (phone c)) \<le> field_size_limit
      \<and> int (length (email c)) \<le> field_size_limit \<and> int (length (tags c)) \<le> field_size_limit)"

text \<open>
  The tags of a contact as the program reads them out of the comma-joined text
  (\<open>t.strip() for t in tags.split(",") if t.strip()\<close>), and the sorted, duplicate-free
  text \<open>",".join(sorted(set(...)))\<close> built from them.
\<close>

definition tag_pieces :: "string \<Rightarrow> string list" where
  "tag_pieces s = filter (\<lambda>t. t \<noteq> []) (map strip (split_on CHR '','' s))"

definition sorted_tags :: "string \<Rightarrow> string" where
  "sorted_tags s = join '','' (sort (remdups (tag_pieces s)))"

text \<open>A contact with its tags put into sorted order, for comparing collections up to tag order.\<close>

definition normalize_tags :: "contact \<Rightarrow> contact" where
  "normalize_tags c = c\<lparr>tags := sorted_tags (tags c)\<rparr>"




section \<open>Validation of e-mail addresses\<close>


















section \<open>Name similarity\<close>

text \<open>
  \<open>name_similarity\<close> is \<open>difflib.SequenceMatcher(None, a.lower(), b.lower()).ratio()\<close>.
  The matcher is modelled as the standard library has it, with \<open>isjunk = None\<close> and
  \<open>autojunk = True\<close>. The float it returns is the one division \<open>2.0 * M / T\<close> of two
  integers, modelled as the exact rational.

  \<open>__chain_b\<close>: \<open>b2j\<close> maps an element to the ascending list of its positions in \<open>b\<close>.
  With \<open>isjunk = None\<close> no element is junk. In a sequence of 200 elements or more, an
  element that occurs more than \<open>n // 100 + 1\<close> times is popular and is removed from
  \<open>b2j\<close>.
\<close>

definition popular :: "string \<Rightarrow> char \<Rightarrow> bool" where
  "popular b elt = (200 \<le> length b \<and> length b div 100 + 1 < count_list b elt)"

definition b2j :: "string \<Rightarrow> char \<Rightarrow> nat list" where
  "b2j b elt = (if popular b elt then [] else filter (\<lambda>j. b ! j = elt) [0..<length b])"

definition isbjunk :: "string \<Rightarrow> char \<Rightarrow> bool" where
  "isbjunk b elt = False"

text \<open>
  \<open>find_longest_match\<close>. The best block so far is \<open>(besti, bestj, bestsize)\<close>; \<open>j2len\<close>
  is the dictionary of the previous row. \<open>j2len.get(j - 1, 0)\<close> finds nothing for
  \<open>j = 0\<close>, the key \<open>-1\<close> never being stored.
\<close>

type_synonym block = "nat \<times> nat \<times> nat"

definition j2lenget :: "(nat \<rightharpoonup> nat) \<Rightarrow> nat \<Rightarrow> nat" where
  "j2lenget j2len j =
     (if j = 0 then 0 else (case j2len (j - 1) of None \<Rightarrow> 0 | Some k \<Rightarrow> k))"

text \<open>The loop \<open>for j in b2j.get(a[i], nothing)\<close>, with its \<open>continue\<close> and its \<open>break\<close>.\<close>

fun inner_loop ::
  "nat \<Rightarrow> nat \<Rightarrow> nat \<Rightarrow> (nat \<rightharpoonup> nat) \<Rightarrow> nat list \<Rightarrow> block \<times> (nat \<rightharpoonup> nat)
     \<Rightarrow> block \<times> (nat \<rightharpoonup> nat)" where
  "inner_loop i blo bhi j2len [] st = st"
| "inner_loop i blo bhi j2len (j # js) ((besti, bestj, bestsize), newj2len) =
     (if j < blo then inner_loop i blo bhi j2len js ((besti, bestj, bestsize), newj2len)
      else if bhi \<le> j then ((besti, bestj, bestsize), newj2len)
      else (let k = j2lenget j2len j + 1
            in inner_loop i blo bhi j2len js
                 ((if bestsize < k then (i + 1 - k, j + 1 - k, k) else (besti, bestj, bestsize)),
                  newj2len(j \<mapsto> k))))"

text \<open>The loop \<open>for i in range(alo, ahi)\<close>.\<close>

fun outer_loop ::
  "string \<Rightarrow> string \<Rightarrow> nat \<Rightarrow> nat \<Rightarrow> nat list \<Rightarrow> block \<times> (nat \<rightharpoonup> nat)
     \<Rightarrow> block \<times> (nat \<rightharpoonup> nat)" where
  "outer_loop a b blo bhi [] st = st"
| "outer_loop a b blo bhi (i # rows) (best, j2len) =
     outer_loop a b blo bhi rows
       (inner_loop i blo bhi j2len (b2j b (a ! i)) (best, Map.empty))"

text \<open>
  The four \<open>while\<close> loops that extend the block at its two ends, first over elements that
  are not junk (\<open>junk = False\<close>), then over junk.
\<close>

function extend_left :: "string \<Rightarrow> string \<Rightarrow> nat \<Rightarrow> nat \<Rightarrow> bool \<Rightarrow> block \<Rightarrow> block" where
  "extend_left a b alo blo junk (besti, bestj, bestsize) =
     (if alo < besti \<and> blo < bestj \<and> isbjunk b (b ! (bestj - 1)) = junk
         \<and> a ! (besti - 1) = b ! (bestj - 1)
      then extend_left a b alo blo junk (besti - 1, bestj - 1, bestsize + 1)
      else (besti, bestj, bestsize))"
  by pat_completeness auto
termination
  by (relation "measure (\<lambda>(a, b, alo, blo, junk, besti, bestj, bestsize). besti)") auto

function extend_right :: "string \<Rightarrow> string \<Rightarrow> nat \<Rightarrow> nat \<Rightarrow> bool \<Rightarrow> block \<Rightarrow> block" where
  "extend_right a b ahi bhi junk (besti, bestj, bestsize) =
     (if besti + bestsize < ahi \<and> bestj + bestsize < bhi
         \<and> isbjunk b (b ! (bestj + bestsize)) = junk
         \<and> a ! (besti + bestsize) = b ! (bestj + bestsize)
      then extend_right a b ahi bhi junk (besti, bestj, bestsize + 1)
      else (besti, bestj, bestsize))"
  by pat_completeness auto
termination
  by (relation "measure (\<lambda>(a, b, ahi, bhi, junk, besti, bestj, bestsize). ahi - (besti + bestsize))")
    auto

definition find_longest_match :: "string \<Rightarrow> string \<Rightarrow> nat \<Rightarrow> nat \<Rightarrow> nat \<Rightarrow> nat \<Rightarrow> block" where
  "find_longest_match a b alo ahi blo bhi =
     (let best0 = fst (outer_loop a b blo bhi [alo..<ahi] ((alo, blo, 0), Map.empty));
          best1 = extend_left a b alo blo False best0;
          best2 = extend_right a b ahi bhi False best1;
          best3 = extend_left a b alo blo True best2
      in extend_right a b ahi bhi True best3)"

text \<open>
  \<open>get_matching_blocks\<close>: the loop over the queue of regions still to be looked at. The
  queue is a stack; its head here is the end of the Python list, where \<open>pop\<close> and
  \<open>append\<close> work.
\<close>

type_synonym region = "nat \<times> nat \<times> nat \<times> nat"

definition push_regions :: "region \<Rightarrow> block \<Rightarrow> region list \<Rightarrow> region list" where
  "push_regions r x queue =
     (case r of (alo, ahi, blo, bhi) \<Rightarrow> case x of (i, j, k) \<Rightarrow>
        (let q1 = (if alo < i \<and> blo < j then (alo, i, blo, j) # queue else queue)
         in if i + k < ahi \<and> j + k < bhi then (i + k, ahi, j + k, bhi) # q1 else q1))"

function queue_loop :: "string \<Rightarrow> string \<Rightarrow> region list \<Rightarrow> block list \<Rightarrow> block list" where
  "queue_loop a b [] matching_blocks = matching_blocks"
| "queue_loop a b ((alo, ahi, blo, bhi) # queue) matching_blocks =
     (let x = find_longest_match a b alo ahi blo bhi
      in if snd (snd x) \<noteq> 0
         then queue_loop a b (push_regions (alo, ahi, blo, bhi) x queue) (matching_blocks @ [x])
         else queue_loop a b queue matching_blocks)"
  by pat_completeness auto

text \<open>The loop that collapses adjacent blocks of the sorted list.\<close>

fun collapse :: "block \<Rightarrow> block list \<Rightarrow> block list \<Rightarrow> block list" where
  "collapse (i1, j1, k1) [] non_adjacent =
     (if k1 \<noteq> 0 then non_adjacent @ [(i1, j1, k1)] else non_adjacent)"
| "collapse (i1, j1, k1) ((i2, j2, k2) # blocks) non_adjacent =
     (if i1 + k1 = i2 \<and> j1 + k1 = j2 then collapse (i1, j1, k1 + k2) blocks non_adjacent
      else collapse (i2, j2, k2) blocks
             (if k1 \<noteq> 0 then non_adjacent @ [(i1, j1, k1)] else non_adjacent))"

text \<open>\<open>sum(triple[-1] for triple in blocks)\<close>: the number of matched elements.\<close>

definition matched :: "block list \<Rightarrow> nat" where
  "matched blocks = sum_list (map (\<lambda>triple. snd (snd triple)) blocks)"

definition get_matching_blocks :: "string \<Rightarrow> string \<Rightarrow> block list" where
  "get_matching_blocks a b =
     collapse (0, 0, 0) (sort (queue_loop a b [(0, length a, 0, length b)] [])) []
       @ [(length a, length b, 0)]"

text \<open>\<open>_calculate_ratio\<close> and \<open>ratio\<close>.\<close>

definition calculate_ratio :: "nat \<Rightarrow> nat \<Rightarrow> rat" where
  "calculate_ratio matches len = (if len \<noteq> 0 then 2 * of_nat matches / of_nat len else 1)"

definition ratio :: "string \<Rightarrow> string \<Rightarrow> rat" where
  "ratio a b =
     calculate_ratio (matched (get_matching_blocks a b)) (length a + length b)"

definition name_similarity :: "string \<Rightarrow> string \<Rightarrow> rat" where
  "name_similarity a b = ratio (lower a) (lower b)"

declare extend_left.simps [simp del]
declare extend_right.simps [simp del]

text \<open>
  Two predicates for reasoning about the matcher: a block lies inside a region, and every
  entry of a row dictionary is a match length that fits between the start of the region
  and its position.
\<close>

definition in_region :: "nat \<Rightarrow> nat \<Rightarrow> nat \<Rightarrow> nat \<Rightarrow> block \<Rightarrow> bool" where
  "in_region alo ahi blo bhi x =
     (case x of (i, j, k) \<Rightarrow> alo \<le> i \<and> i + k \<le> ahi \<and> blo \<le> j \<and> j + k \<le> bhi)"

definition row_ok :: "nat \<Rightarrow> nat \<Rightarrow> nat \<Rightarrow> nat \<Rightarrow> (nat \<rightharpoonup> nat) \<Rightarrow> bool" where
  "row_ok alo blo bhi i m =
     (\<forall>j k. m j = Some k \<longrightarrow> 1 \<le> k \<and> k + alo \<le> i \<and> k + blo \<le> j + 1 \<and> j < bhi)"

text \<open>The measure under which the loop over the queue ends.\<close>

definition queue_weight :: "region list \<Rightarrow> nat" where
  "queue_weight queue = sum_list (map (\<lambda>(alo, ahi, blo, bhi). 2 * (ahi - alo) + 1) queue)"

text \<open>The room for matches that the regions of a queue leave.\<close>

definition queue_room :: "region list \<Rightarrow> nat" where
  "queue_room queue = sum_list (map (\<lambda>(alo, ahi, blo, bhi). min (ahi - alo) (bhi - blo)) queue)"

text \<open>
  The number of consecutive elements that are not popular, ending at position \<open>j\<close> of
  \<open>a\<close>, and the same number for the position before \<open>i\<close>.
\<close>

fun clean_run :: "string \<Rightarrow> nat \<Rightarrow> nat" where
  "clean_run a 0 = (if popular a (a ! 0) then 0 else 1)"
| "clean_run a (Suc j) = (if popular a (a ! Suc j) then 0 else clean_run a j + 1)"

definition run_before :: "string \<Rightarrow> nat \<Rightarrow> nat" where
  "run_before a i = (if i = 0 then 0 else clean_run a (i - 1))"

text \<open>
  Invariants of the matcher on two equal sequences: the entries of the previous row and of
  the row being built are bounded by the runs, and the entry on the diagonal is the run.
\<close>

definition prev_row :: "string \<Rightarrow> nat \<Rightarrow> (nat \<rightharpoonup> nat) \<Rightarrow> bool" where
  "prev_row a i m =
     ((\<forall>j k. m j = Some k \<longrightarrow> k \<le> clean_run a j \<and> k \<le> run_before a i)
      \<and> (0 < i \<and> \<not> popular a (a ! (i - 1)) \<longrightarrow> m (i - 1) = Some (run_before a i)))"

definition this_row :: "string \<Rightarrow> nat \<Rightarrow> (nat \<rightharpoonup> nat) \<Rightarrow> bool" where
  "this_row a i m = (\<forall>j k. m j = Some k \<longrightarrow> k \<le> clean_run a j \<and> k \<le> clean_run a i)"

definition diag_state :: "string \<Rightarrow> nat \<Rightarrow> block \<times> (nat \<rightharpoonup> nat) \<Rightarrow> bool" where
  "diag_state a i st =
     (case st of ((bi, bj, bs), m) \<Rightarrow>
        bi = bj \<and> (\<forall>j < i. clean_run a j \<le> bs) \<and> prev_row a i m)"


section \<open>Merging duplicates\<close>

text \<open>
  \<open>merge_duplicates\<close> reads its decisions from standard input, one line at each prompt.
  The state of its scan holds the list \<open>contacts\<close> (whose dictionaries are updated in
  place), the set \<open>used\<close>, the flag \<open>merged_any\<close> and the lines not yet read; four
  records of what has happened are kept beside them: the pairs whose similarity was
  computed, the number of prompts printed, the pairs prompted for with the line read in
  answer, and the pairs merged.
\<close>

record scan =
  scan_contacts :: "contact list"
  used :: "nat set"
  merged_any :: bool
  stdin :: "string list"
  compared :: "(nat \<times> nat) list"
  prompts :: nat
  asked :: "((nat \<times> nat) \<times> string) list"
  merges :: "(nat \<times> nat) list"

text \<open>The update of \<open>target\<close> from \<open>src\<close> when a merge is chosen.\<close>

definition merge_into :: "contact \<Rightarrow> contact \<Rightarrow> contact" where
  "merge_into target src =
     (let t1 = (if phone target = [] \<and> phone src \<noteq> [] then target\<lparr>phone := phone src\<rparr> else target);
          t2 = (if email t1 = [] \<and> email src \<noteq> [] then t1\<lparr>email := email src\<rparr> else t1);
          t3 = t2\<lparr>tags := sorted_tags (tags t2 @ '','' @ tags src)\<rparr>
      in t3\<lparr>favorite := (favorite t3 \<or> favorite src)\<rparr>)"

text \<open>
  The loop over \<open>j\<close> for one \<open>i\<close>. \<open>input(prompt)\<close> prints the prompt and then reads
  a line; when no line is left it raises \<open>EOFError\<close>, the prompt already printed: the
  result is then \<open>Inl\<close> of the state at that moment.
\<close>

fun inner_scan :: "rat \<Rightarrow> nat \<Rightarrow> nat list \<Rightarrow> scan \<Rightarrow> scan + scan" where
  "inner_scan auto_threshold i [] s = Inr s"
| "inner_scan auto_threshold i (j # js) s =
     (if j \<in> used s then inner_scan auto_threshold i js s
      else
        (let sim = name_similarity (name (scan_contacts s ! i)) (name (scan_contacts s ! j));
             s1 = s\<lparr>compared := compared s @ [(i, j)]\<rparr>
         in if auto_threshold \<le> sim
            then (let s2 = s1\<lparr>prompts := prompts s1 + 1\<rparr>
                  in case stdin s2 of
                       [] \<Rightarrow> Inl s2
                     | l # rest \<Rightarrow>
                         (let action = upper (strip l);
                              s3 = s2\<lparr>stdin := rest, asked := asked s2 @ [((i, j), l)]\<rparr>
                          in if action = ''M'' \<or> action = ''A''
                             then inner_scan auto_threshold i js
                                    (s3\<lparr>scan_contacts :=
                                           (scan_contacts s3)
                                             [i := merge_into (scan_contacts s3 ! i) (scan_contacts s3 ! j)],
                                         used := insert j (used s3),
                                         merged_any := True,
                                         merges := merges s3 @ [(i, j)]\<rparr>)
                             else inner_scan auto_threshold i js s3))
            else inner_scan auto_threshold i js s1))"

text \<open>The loop over \<open>i\<close>.\<close>

fun outer_scan :: "rat \<Rightarrow> nat \<Rightarrow> nat list \<Rightarrow> scan \<Rightarrow> scan + scan" where
  "outer_scan auto_threshold n [] s = Inr s"
| "outer_scan auto_threshold n (i # rest) s =
     (if i \<in> used s then outer_scan auto_threshold n rest s
      else (case inner_scan auto_threshold i [i + 1..<n] s of
              Inl failed \<Rightarrow> Inl failed
            | Inr s' \<Rightarrow> outer_scan auto_threshold n rest s'))"

text \<open>
  \<open>merge_duplicates\<close>: what it reports, the final state of its scan, and the store.
\<close>

datatype merge_outcome =
    NotEnoughContacts
  | DuplicateMergeFailed
  | NoMergesPerformed
  | MergedAndSaved "contact list"

definition merge_duplicates ::
  "rat \<Rightarrow> string list \<Rightarrow> timestamp \<Rightarrow> timestamp \<Rightarrow> store \<Rightarrow> merge_outcome \<times> scan \<times> store" where
  "merge_duplicates auto_threshold lines now1 now2 st =
     (let contacts = read_contacts (csv_file st);
          n = length contacts;
          s0 = \<lparr>scan_contacts = contacts, used = {}, merged_any = False, stdin = lines,
                compared = [], prompts = 0, asked = [], merges = []\<rparr>
      in if n < 2 then (NotEnoughContacts, s0, st)
         else (case outer_scan auto_threshold n [0..<n] s0 of
                 Inl failed \<Rightarrow> (DuplicateMergeFailed, failed, st)
               | Inr s \<Rightarrow>
                   if merged_any s
                   then (let new_contacts =
                               map (\<lambda>i. scan_contacts s ! i)
                                 (filter (\<lambda>i. i \<notin> used s) [0..<length (scan_contacts s)])
                         in (MergedAndSaved new_contacts, s, write_contacts now1 now2 new_contacts st))
                   else (NoMergesPerformed, s, st)))"










section \<open>Example data\<close>

definition clock_morning :: timestamp where
  "clock_morning = \<lparr> year = 2025, month = 11, day = 14, hour = 9, minute = 30, second = 0 \<rparr>"

definition clock_noon :: timestamp where
  "clock_noon = \<lparr> year = 2025, month = 11, day = 14, hour = 12, minute = 0, second = 5 \<rparr>"

definition empty_store :: store where
  "empty_store = \<lparr> csv_file = None, prev_snapshot = None, backup_dir = [] \<rparr>"

text \<open>The store once \<open>ensure_csv_exists\<close> has written the header.\<close>

definition fresh_store :: store where
  "fresh_store = \<lparr> csv_file = Some [Row CSV_FIELDS], prev_snapshot = None, backup_dir = [] \<rparr>"

definition bob :: contact where
  "bob = \<lparr> name = ''Bob'', phone = ''5551234'', email = ''bob@x.org'', tags = ''b,a'',
           favorite = True \<rparr>"

definition eve :: contact where
  "eve = \<lparr> name = ''Eve'', phone = '''', email = '''', tags = '''', favorite = False \<rparr>"

text \<open>A contact file with a row whose name is blank and a row with padded fields.\<close>

definition padded_file :: csv_content where
  "padded_file =
     [Row CSV_FIELDS,
      Row [''   '', ''5550000'', '''', '''', ''1''],
      Row ['' Bob '', ''5551234'', ''bob@x.org '', ''b,a'', ''YES'']]"



definition ann_store :: store where
  "ann_store =
     \<lparr> csv_file = Some [Row CSV_FIELDS,
                         Row [''Ann'', [], [], ''x'', ''0''],
                         Row [''Ann'', [], [], ''y'', ''0''],
                         Row [''Ann'', ''555'', [], ''z'', ''0'']],
       prev_snapshot = None, backup_dir = [] \<rparr>"

definition one_store :: store where
  "one_store =
     \<lparr> csv_file = Some [Row CSV_FIELDS, Row [''Ann'', ''555'', [], ''z'', ''0'']],
       prev_snapshot = None, backup_dir = [] \<rparr>"



text \<open>A contact whose name is one character longer than the reader accepts.\<close>

definition long_name :: contact where
  "long_name = \<lparr> name = replicate 131073 CHR ''a'', phone = [], email = [], tags = [],
                 favorite = False \<rparr>"

section \<open>Reading back what was written\<close>

lemma strip_nonspace_ends:
  "s \<noteq> [] \<Longrightarrow> \<not> isspace (hd s) \<Longrightarrow> \<not> isspace (last s) \<Longrightarrow> strip s = s"
  unfolding strip_def rstrip_def lstrip_def
  by (metis dropWhile_eq_self_iff hd_rev rev_swap)

lemma strip_Nil: "strip [] = []"
  by (simp add: strip_def rstrip_def lstrip_def)

lemma rstrip_prefix: "t = rstrip t @ rev (takeWhile isspace (rev t))"
  unfolding rstrip_def
  by (metis rev_append rev_rev_ident takeWhile_dropWhile_id)

lemma rstrip_last: "rstrip t \<noteq> [] \<Longrightarrow> \<not> isspace (last (rstrip t))"
  unfolding rstrip_def
  by (simp add: hd_dropWhile last_rev)

lemma lstrip_hd: "lstrip t \<noteq> [] \<Longrightarrow> \<not> isspace (hd (lstrip t))"
  unfolding lstrip_def
  by (simp add: hd_dropWhile)

lemma rstrip_hd: "rstrip t \<noteq> [] \<Longrightarrow> hd (rstrip t) = hd t"
  using rstrip_prefix[of t] by (metis hd_append2)

lemma rstrip_Nil: "rstrip [] = []"
  by (simp add: rstrip_def)

lemma strip_idem: "strip (strip s) = strip s"
proof (cases "strip s = []")
  case True
  then show ?thesis by (simp add: strip_Nil)
next
  case False
  then have ne: "rstrip (lstrip s) \<noteq> []" by (simp add: strip_def)
  then have lne: "lstrip s \<noteq> []" using rstrip_Nil by auto
  have "hd (strip s) = hd (lstrip s)" using ne by (simp add: strip_def rstrip_hd)
  then have h: "\<not> isspace (hd (strip s))" using lne by (simp add: lstrip_hd)
  have l: "\<not> isspace (last (strip s))" using ne by (simp add: strip_def rstrip_last)
  show ?thesis using False h l by (rule strip_nonspace_ends)
qed

lemma stripped_row_field: "stripped (row_field d k)"
  by (auto simp: stripped_def row_field_def strip_idem strip_Nil split: option.splits)

lemma contact_of_row_well_formed:
  "contact_of_row fieldnames row = Some c \<Longrightarrow> well_formed c"
  by (auto simp: contact_of_row_def well_formed_def Let_def stripped_row_field split: if_splits)

lemma read_rows_well_formed: "c \<in> set (read_rows fieldnames rows) \<Longrightarrow> well_formed c"
proof (induction fieldnames rows rule: read_rows.induct)
  case (3 fieldnames row rest)
  then show ?case
    by (auto split: if_splits option.splits dest: contact_of_row_well_formed)
qed simp_all

lemma read_contacts_well_formed: "c \<in> set (read_contacts f) \<Longrightarrow> well_formed c"
  by (induction f rule: read_contacts.induct) (auto dest: read_rows_well_formed)

lemma strip_digit: "strip ''1'' = ''1''" "strip ''0'' = ''0''"
  by (simp_all add: strip_def lstrip_def rstrip_def isspace_def)

lemma lower_digit: "lower ''1'' = ''1''" "lower ''0'' = ''0''"
  by (simp_all add: lower_def lower_char_def)

lemma dict_row_written:
  "dict_row CSV_FIELDS [n, p, e, t, f] =
     [''name'' \<mapsto> Some n, ''phone'' \<mapsto> Some p, ''email'' \<mapsto> Some e, ''tags'' \<mapsto> Some t,
      ''favorite'' \<mapsto> Some f]"
  by (auto simp: dict_row_def CSV_FIELDS_def fun_eq_iff)

lemma contact_of_row_written:
  "well_formed c \<Longrightarrow> contact_of_row CSV_FIELDS (row_of_contact c) = Some c"
  by (simp add: contact_of_row_def row_of_contact_def dict_row_written row_field_def
      well_formed_def stripped_def strip_digit lower_digit truthy_words_def)

lemma readable_row_of_contact: "readable (row_of_contact c) = within_limit c"
  by (auto simp: readable_def row_of_contact_def within_limit_def field_size_limit_def)

lemma written_row_within: "within_limit c \<Longrightarrow> written_row c = Row (row_of_contact c)"
  by (simp add: written_row_def readable_row_of_contact)

lemma written_row_beyond: "\<not> within_limit c \<Longrightarrow> written_row c = Unreadable"
  by (simp add: written_row_def readable_row_of_contact)

lemma read_rows_written:
  "list_all well_formed cs \<Longrightarrow>
     read_rows CSV_FIELDS (map written_row cs) = takeWhile within_limit cs"
proof (induction cs)
  case Nil
  then show ?case by simp
next
  case (Cons c cs)
  then have w: "well_formed c" and IH: "read_rows CSV_FIELDS (map written_row cs) = takeWhile within_limit cs"
    by simp_all
  show ?case
  proof (cases "within_limit c")
    case True
    have ne: "row_of_contact c \<noteq> []" by (simp add: row_of_contact_def)
    show ?thesis
      using ne by (simp add: written_row_within[OF True] True contact_of_row_written[OF w] IH)
  next
    case False
    then show ?thesis by (simp add: written_row_beyond)
  qed
qed

lemma read_render_prefix:
  "list_all well_formed cs \<Longrightarrow> read_contacts (Some (render_contacts cs)) = takeWhile within_limit cs"
  by (simp add: render_contacts_def read_rows_written)

lemma read_render:
  "list_all well_formed cs \<Longrightarrow> list_all within_limit cs \<Longrightarrow>
     read_contacts (Some (render_contacts cs)) = cs"
  by (simp add: read_render_prefix takeWhile_eq_all_conv list_all_iff)

lemma length_rstrip: "length (rstrip s) \<le> length s"
  unfolding rstrip_def by (metis length_dropWhile_le length_rev)

lemma length_strip: "length (strip s) \<le> length s"
  unfolding strip_def lstrip_def
  by (rule order_trans[OF length_rstrip]) (rule length_dropWhile_le)

lemma contact_of_written_row_within_limit:
  assumes "within_limit c" and "contact_of_row CSV_FIELDS (row_of_contact c) = Some c'"
  shows "within_limit c'"
proof -
  have l: "int (length (strip s)) \<le> field_size_limit" if "int (length s) \<le> field_size_limit" for s
    using that length_strip[of s] by linarith
  from assms(2) have "name c' = strip (name c)" "phone c' = strip (phone c)"
    "email c' = strip (email c)" "tags c' = strip (tags c)"
    by (auto simp: contact_of_row_def row_of_contact_def dict_row_written row_field_def Let_def
        split: if_splits)
  then show ?thesis using assms(1) by (simp add: within_limit_def l)
qed

lemma read_rows_written_within_limit:
  "c' \<in> set (read_rows CSV_FIELDS (map written_row cs)) \<Longrightarrow> within_limit c'"
proof (induction cs)
  case Nil
  then show ?case by simp
next
  case (Cons c cs)
  show ?case
  proof (cases "within_limit c")
    case False
    then show ?thesis using Cons.prems by (simp add: written_row_beyond)
  next
    case True
    have ne: "row_of_contact c \<noteq> []" by (simp add: row_of_contact_def)
    show ?thesis
      using Cons ne
      by (auto simp: written_row_within[OF True]
          split: option.splits dest: contact_of_written_row_within_limit[OF True])
  qed
qed

lemma read_render_within_limit:
  "c \<in> set (read_contacts (Some (render_contacts cs))) \<Longrightarrow> within_limit c"
  by (simp add: render_contacts_def read_rows_written_within_limit)

lemma read_render_read_render:
  "read_contacts (Some (render_contacts (read_contacts (Some (render_contacts cs)))))
     = read_contacts (Some (render_contacts cs))"
  by (rule read_render)
     (simp_all add: list_all_iff read_contacts_well_formed read_render_within_limit)

lemma well_formed_long_name: "well_formed long_name"
proof -
  have "strip (replicate 131073 CHR ''a'') = replicate 131073 CHR ''a''"
    by (rule strip_nonspace_ends) (simp_all add: isspace_def hd_replicate last_replicate)
  then show ?thesis
    by (simp add: well_formed_def stripped_def long_name_def strip_Nil)
qed

lemma not_within_limit_long_name: "\<not> within_limit long_name"
  by (simp add: within_limit_def long_name_def field_size_limit_def)


section \<open>Snapshot and backup: auxiliary facts\<close>

lemma csv_file_write: "csv_file (write_contacts now1 now2 cs st) = Some (render_contacts cs)"
  by (simp add: write_contacts_def Let_def split: option.splits)

lemma prev_snapshot_write:
  "prev_snapshot (write_contacts now1 now2 cs st) = Some (read_contacts (csv_file st))"
  by (simp add: write_contacts_def Let_def split: option.splits)

lemma undo_after_write:
  assumes "read_contacts (csv_file s1) \<noteq> []"
  shows "undo_last_write a3 b3 (write_contacts a2 b2 c2 s1)
         = (UndoSuccessful,
            (write_contacts a3 b3 (read_contacts (csv_file s1)) (write_contacts a2 b2 c2 s1))
              \<lparr>prev_snapshot := None\<rparr>)"
  using assms by (simp add: undo_last_write_def load_prev_snapshot_def prev_snapshot_write)

lemma undo_no_snapshot:
  "prev_snapshot st = None \<Longrightarrow> undo_last_write a b st = (NoSnapshotError, st)"
  by (simp add: undo_last_write_def load_prev_snapshot_def)














section \<open>What the pattern of e-mail addresses accepts\<close>


















section \<open>The longest match lies in its region\<close>

lemma extend_left_bounds:
  "alo \<le> fst x \<Longrightarrow> blo \<le> fst (snd x) \<Longrightarrow>
     alo \<le> fst (extend_left a b alo blo junk x)
     \<and> blo \<le> fst (snd (extend_left a b alo blo junk x))
     \<and> fst (extend_left a b alo blo junk x) + snd (snd (extend_left a b alo blo junk x))
         = fst x + snd (snd x)
     \<and> fst (snd (extend_left a b alo blo junk x)) + snd (snd (extend_left a b alo blo junk x))
         = fst (snd x) + snd (snd x)
     \<and> snd (snd x) \<le> snd (snd (extend_left a b alo blo junk x))"
proof (induction a b alo blo junk x rule: extend_left.induct)
  case (1 a b alo blo junk besti bestj bestsize)
  show ?case
  proof (cases "alo < besti \<and> blo < bestj \<and> isbjunk b (b ! (bestj - 1)) = junk
         \<and> a ! (besti - 1) = b ! (bestj - 1)")
    case True
    have p: "alo \<le> fst (besti - 1, bestj - 1, bestsize + 1)"
      "blo \<le> fst (snd (besti - 1, bestj - 1, bestsize + 1))"
      using True by auto
    note ih = "1.IH"[OF True p]
    have e: "extend_left a b alo blo junk (besti, bestj, bestsize)
        = extend_left a b alo blo junk (besti - 1, bestj - 1, bestsize + 1)"
      by (rule trans[OF extend_left.simps if_P[OF True]])
    show ?thesis unfolding e using ih True by auto
  next
    case False
    have "extend_left a b alo blo junk (besti, bestj, bestsize) = (besti, bestj, bestsize)"
      by (rule trans[OF extend_left.simps if_not_P[OF False]])
    then show ?thesis using "1.prems" by simp
  qed
qed

lemma extend_right_bounds:
  "fst x + snd (snd x) \<le> ahi \<Longrightarrow> fst (snd x) + snd (snd x) \<le> bhi \<Longrightarrow>
     fst (extend_right a b ahi bhi junk x) = fst x
     \<and> fst (snd (extend_right a b ahi bhi junk x)) = fst (snd x)
     \<and> snd (snd x) \<le> snd (snd (extend_right a b ahi bhi junk x))
     \<and> fst x + snd (snd (extend_right a b ahi bhi junk x)) \<le> ahi
     \<and> fst (snd x) + snd (snd (extend_right a b ahi bhi junk x)) \<le> bhi"
proof (induction a b ahi bhi junk x rule: extend_right.induct)
  case (1 a b ahi bhi junk besti bestj bestsize)
  show ?case
  proof (cases "besti + bestsize < ahi \<and> bestj + bestsize < bhi
         \<and> isbjunk b (b ! (bestj + bestsize)) = junk
         \<and> a ! (besti + bestsize) = b ! (bestj + bestsize)")
    case True
    have p: "fst (besti, bestj, bestsize + 1) + snd (snd (besti, bestj, bestsize + 1)) \<le> ahi"
      "fst (snd (besti, bestj, bestsize + 1)) + snd (snd (besti, bestj, bestsize + 1)) \<le> bhi"
      using True by auto
    note ih = "1.IH"[OF True p]
    have e: "extend_right a b ahi bhi junk (besti, bestj, bestsize)
        = extend_right a b ahi bhi junk (besti, bestj, bestsize + 1)"
      by (rule trans[OF extend_right.simps if_P[OF True]])
    show ?thesis unfolding e using ih True by auto
  next
    case False
    have "extend_right a b ahi bhi junk (besti, bestj, bestsize) = (besti, bestj, bestsize)"
      by (rule trans[OF extend_right.simps if_not_P[OF False]])
    then show ?thesis using "1.prems" by simp
  qed
qed

lemma inner_loop_inv:
  "alo \<le> i \<Longrightarrow> i < ahi \<Longrightarrow> row_ok alo blo bhi i m \<Longrightarrow> in_region alo ahi blo bhi best \<Longrightarrow>
   row_ok alo blo bhi (i + 1) m' \<Longrightarrow>
     in_region alo ahi blo bhi (fst (inner_loop i blo bhi m js (best, m')))
     \<and> row_ok alo blo bhi (i + 1) (snd (inner_loop i blo bhi m js (best, m')))"
proof (induction js arbitrary: best m')
  case Nil
  then show ?case by simp
next
  case (Cons j js)
  obtain bi bj bs where best: "best = (bi, bj, bs)" by (cases best)
  show ?case
  proof (cases "j < blo \<or> bhi \<le> j")
    case True
    then show ?thesis using Cons by (auto simp: best)
  next
    case False
    define k where "k = j2lenget m j + 1"
    have k1: "1 \<le> k" by (simp add: k_def)
    have kb: "k + alo \<le> i + 1 \<and> k + blo \<le> j + 1"
    proof (cases "j = 0 \<or> m (j - 1) = None")
      case True
      then have "k = 1" by (auto simp: k_def j2lenget_def)
      then show ?thesis using Cons.prems(1) False by simp
    next
      case F: False
      then obtain k0 where k0: "m (j - 1) = Some k0" by auto
      from Cons.prems(3) k0 have "k0 + alo \<le> i \<and> k0 + blo \<le> (j - 1) + 1"
        unfolding row_ok_def by blast
      moreover have "k = k0 + 1" using F k0 by (simp add: k_def j2lenget_def)
      ultimately show ?thesis using F by simp
    qed
    have m'': "row_ok alo blo bhi (i + 1) (m'(j \<mapsto> k))"
      using Cons.prems(5) k1 kb False by (auto simp: row_ok_def)
    have b'': "in_region alo ahi blo bhi (if bs < k then (i + 1 - k, j + 1 - k, k) else (bi, bj, bs))"
      using Cons.prems(2,4) kb False by (auto simp: in_region_def best)
    have step: "inner_loop i blo bhi m (j # js) (best, m')
        = inner_loop i blo bhi m js
            ((if bs < k then (i + 1 - k, j + 1 - k, k) else (bi, bj, bs)), m'(j \<mapsto> k))"
      using False by (simp add: best k_def Let_def)
    show ?thesis
      unfolding step using Cons.IH[OF Cons.prems(1,2,3) b'' m''] .
  qed
qed

lemma row_ok_empty: "row_ok alo blo bhi i Map.empty"
  by (simp add: row_ok_def)

lemma outer_loop_inv:
  "alo \<le> i \<Longrightarrow> row_ok alo blo bhi i m \<Longrightarrow> in_region alo ahi blo bhi best \<Longrightarrow>
     in_region alo ahi blo bhi (fst (outer_loop a b blo bhi [i..<ahi] (best, m)))"
proof (induction "ahi - i" arbitrary: i m best)
  case 0
  then show ?case by simp
next
  case (Suc n)
  then have lt: "i < ahi" by simp
  then have u: "[i..<ahi] = i # [Suc i..<ahi]" by (simp add: upt_conv_Cons)
  note inv = inner_loop_inv[OF Suc.prems(1) lt Suc.prems(2,3) row_ok_empty,
      of "b2j b (a ! i)"]
  obtain best' m' where r: "inner_loop i blo bhi m (b2j b (a ! i)) (best, Map.empty) = (best', m')"
    by (cases "inner_loop i blo bhi m (b2j b (a ! i)) (best, Map.empty)")
  have n: "n = ahi - Suc i" using Suc.hyps(2) by simp
  have "in_region alo ahi blo bhi (fst (outer_loop a b blo bhi [Suc i..<ahi] (best', m')))"
    using Suc.hyps(1)[OF n, of m' best'] inv Suc.prems(1) by (simp add: r)
  then show ?case by (simp add: u r)
qed

lemma inner_loop_no_window:
  "bhi \<le> blo \<Longrightarrow> fst (inner_loop i blo bhi m js (best, m')) = best"
proof (induction js arbitrary: m')
  case Nil
  then show ?case by simp
next
  case (Cons j js)
  obtain bi bj bs where best: "best = (bi, bj, bs)" by (cases best)
  show ?case
  proof (cases "j < blo")
    case True
    then show ?thesis using Cons by (simp add: best)
  next
    case False
    then have "bhi \<le> j" using Cons.prems by simp
    then show ?thesis using False by (simp add: best)
  qed
qed

lemma outer_loop_no_window:
  "bhi \<le> blo \<Longrightarrow> fst (outer_loop a b blo bhi rows (best, m)) = best"
proof (induction rows arbitrary: m)
  case Nil
  then show ?case by simp
next
  case (Cons i rows)
  obtain best' m' where r: "inner_loop i blo bhi m (b2j b (a ! i)) (best, Map.empty) = (best', m')"
    by (cases "inner_loop i blo bhi m (b2j b (a ! i)) (best, Map.empty)")
  have "best' = best" using inner_loop_no_window[OF Cons.prems, of i m "b2j b (a ! i)" best Map.empty]
    by (simp add: r)
  then show ?case using Cons.IH[OF Cons.prems, of m'] by (simp add: r)
qed

lemma in_region_alt:
  "in_region alo ahi blo bhi x =
     (alo \<le> fst x \<and> fst x + snd (snd x) \<le> ahi \<and> blo \<le> fst (snd x)
      \<and> fst (snd x) + snd (snd x) \<le> bhi)"
  by (cases x) (simp add: in_region_def)

lemma extend_left_in_region:
  "in_region alo ahi blo bhi x \<Longrightarrow> in_region alo ahi blo bhi (extend_left a b alo blo junk x)"
proof -
  assume r: "in_region alo ahi blo bhi x"
  then have p: "alo \<le> fst x" "blo \<le> fst (snd x)" by (simp_all add: in_region_alt)
  from extend_left_bounds[OF p, of a b junk] r show ?thesis
    by (simp add: in_region_alt)
qed

lemma extend_right_in_region:
  "in_region alo ahi blo bhi x \<Longrightarrow> in_region alo ahi blo bhi (extend_right a b ahi bhi junk x)"
proof -
  assume r: "in_region alo ahi blo bhi x"
  then have p: "fst x + snd (snd x) \<le> ahi" "fst (snd x) + snd (snd x) \<le> bhi"
    by (simp_all add: in_region_alt)
  from extend_right_bounds[OF p, of a b junk] r show ?thesis
    by (simp add: in_region_alt)
qed

lemma find_longest_match_in_region:
  assumes "alo \<le> ahi" "blo \<le> bhi"
  shows "in_region alo ahi blo bhi (find_longest_match a b alo ahi blo bhi)"
proof -
  have 0: "in_region alo ahi blo bhi (alo, blo, 0)" using assms by (simp add: in_region_def)
  have 1: "in_region alo ahi blo bhi (fst (outer_loop a b blo bhi [alo..<ahi] ((alo, blo, 0), Map.empty)))"
    by (rule outer_loop_inv[OF order_refl row_ok_empty 0])
  show ?thesis
    unfolding find_longest_match_def Let_def
    by (intro extend_right_in_region extend_left_in_region 1)
qed

lemma extend_left_at_start: "extend_left a b alo blo junk (alo, bj, bs) = (alo, bj, bs)"
  by (subst extend_left.simps) simp

lemma extend_right_no_room:
  "ahi \<le> bi + bs \<or> bhi \<le> bj + bs \<Longrightarrow> extend_right a b ahi bhi junk (bi, bj, bs) = (bi, bj, bs)"
  by (subst extend_right.simps) auto

lemma find_longest_match_degenerate:
  assumes "ahi < alo \<or> bhi < blo"
  shows "find_longest_match a b alo ahi blo bhi = (alo, blo, 0)"
proof -
  have 1: "fst (outer_loop a b blo bhi [alo..<ahi] ((alo, blo, 0), Map.empty)) = (alo, blo, 0)"
  proof (cases "ahi < alo")
    case True
    then show ?thesis by simp
  next
    case False
    then have "bhi \<le> blo" using assms by simp
    then show ?thesis by (rule outer_loop_no_window)
  qed
  have 2: "ahi \<le> alo + 0 \<or> bhi \<le> blo + 0" using assms by auto
  show ?thesis
    unfolding find_longest_match_def Let_def 1
    by (simp only: extend_left_at_start extend_right_no_room[OF 2])
qed

lemma find_longest_match_nonempty:
  "snd (snd (find_longest_match a b alo ahi blo bhi)) \<noteq> 0 \<Longrightarrow>
     in_region alo ahi blo bhi (find_longest_match a b alo ahi blo bhi)"
  using find_longest_match_degenerate[of ahi alo bhi blo a b]
    find_longest_match_in_region[of alo ahi blo bhi a b]
  by (cases "ahi < alo \<or> bhi < blo") auto

lemma queue_weight_push:
  assumes "snd (snd x) \<noteq> 0" "in_region alo ahi blo bhi x"
  shows "queue_weight (push_regions (alo, ahi, blo, bhi) x queue)
         < queue_weight ((alo, ahi, blo, bhi) # queue)"
proof -
  obtain i j k where x: "x = (i, j, k)" by (cases x)
  from assms have "0 < k" "alo \<le> i" "i + k \<le> ahi" by (simp_all add: x in_region_def)
  then show ?thesis
    by (auto simp: queue_weight_def push_regions_def x Let_def)
qed

termination queue_loop
proof (relation "measure (\<lambda>(a, b, queue, matching_blocks). queue_weight queue)", goal_cases)
  case 1
  then show ?case by simp
next
  case (2 a b alo ahi blo bhi queue matching_blocks x)
  then show ?case
    using queue_weight_push[OF _ find_longest_match_nonempty, of a b alo ahi blo bhi queue]
    by simp
next
  case (3 a b alo ahi blo bhi queue matching_blocks x)
  then show ?case by (simp add: queue_weight_def)
qed

declare queue_loop.simps [simp del]


section \<open>The ratio lies between 0 and 1\<close>

lemma matched_append: "matched (xs @ ys) = matched xs + matched ys"
  by (simp add: matched_def)

lemma queue_room_push:
  assumes "in_region alo ahi blo bhi x"
  shows "queue_room (push_regions (alo, ahi, blo, bhi) x queue) + snd (snd x)
         \<le> queue_room ((alo, ahi, blo, bhi) # queue)"
proof -
  obtain i j k where x: "x = (i, j, k)" by (cases x)
  from assms have "alo \<le> i" "i + k \<le> ahi" "blo \<le> j" "j + k \<le> bhi"
    by (simp_all add: x in_region_def)
  then show ?thesis
    by (auto simp: queue_room_def push_regions_def x Let_def)
qed

lemma matched_queue_loop:
  "matched (queue_loop a b queue acc) \<le> matched acc + queue_room queue"
proof (induction a b queue acc rule: queue_loop.induct)
  case (1 a b matching_blocks)
  then show ?case by (simp add: queue_loop.simps queue_room_def)
next
  case (2 a b alo ahi blo bhi queue matching_blocks)
  define x where "x = find_longest_match a b alo ahi blo bhi"
  show ?case
  proof (cases "snd (snd x) \<noteq> 0")
    case True
    have r: "in_region alo ahi blo bhi x"
      using True find_longest_match_nonempty unfolding x_def by blast
    have e: "queue_loop a b ((alo, ahi, blo, bhi) # queue) matching_blocks
        = queue_loop a b (push_regions (alo, ahi, blo, bhi) x queue) (matching_blocks @ [x])"
      using True by (simp add: queue_loop.simps x_def Let_def)
    have "matched (queue_loop a b (push_regions (alo, ahi, blo, bhi) x queue) (matching_blocks @ [x]))
        \<le> matched (matching_blocks @ [x]) + queue_room (push_regions (alo, ahi, blo, bhi) x queue)"
      using "2.IH"(1)[OF x_def True] .
    also have "\<dots> = matched matching_blocks + (queue_room (push_regions (alo, ahi, blo, bhi) x queue) + snd (snd x))"
      by (simp add: matched_append matched_def)
    also have "\<dots> \<le> matched matching_blocks + queue_room ((alo, ahi, blo, bhi) # queue)"
      using queue_room_push[OF r, of queue] by simp
    finally show ?thesis unfolding e .
  next
    case False
    have e: "queue_loop a b ((alo, ahi, blo, bhi) # queue) matching_blocks
        = queue_loop a b queue matching_blocks"
      using False by (simp add: queue_loop.simps x_def Let_def)
    have "matched (queue_loop a b queue matching_blocks) \<le> matched matching_blocks + queue_room queue"
      using "2.IH"(2)[OF x_def False] .
    then show ?thesis unfolding e by (simp add: queue_room_def)
  qed
qed

lemma matched_insort: "matched (insort x xs) = snd (snd x) + matched xs"
  by (induction xs) (auto simp: matched_def)

lemma matched_sort: "matched (sort xs) = matched xs"
  by (induction xs) (simp_all add: matched_insort, simp_all add: matched_def)

lemma matched_collapse:
  "matched (collapse (i1, j1, k1) blocks acc) = k1 + matched blocks + matched acc"
  by (induction blocks arbitrary: i1 j1 k1 acc) (auto simp: matched_def)

lemma matched_get_matching_blocks:
  "matched (get_matching_blocks a b) = matched (queue_loop a b [(0, length a, 0, length b)] [])"
  by (simp add: get_matching_blocks_def matched_append matched_collapse matched_sort)
    (simp add: matched_def)

lemma matched_le_min:
  "matched (get_matching_blocks a b) \<le> min (length a) (length b)"
proof -
  have "matched (queue_loop a b [(0, length a, 0, length b)] [])
      \<le> matched [] + queue_room [(0, length a, 0, length b)]"
    by (rule matched_queue_loop)
  also have "\<dots> = min (length a) (length b)" by (simp add: matched_def queue_room_def)
  finally show ?thesis by (simp only: matched_get_matching_blocks)
qed

lemma ratio_range: "0 \<le> ratio a b \<and> ratio a b \<le> 1"
proof -
  have m: "matched (get_matching_blocks a b) \<le> min (length a) (length b)" by (rule matched_le_min)
  then have "2 * matched (get_matching_blocks a b) \<le> length a + length b" by simp
  then have "2 * (of_nat (matched (get_matching_blocks a b)) :: rat) \<le> of_nat (length a + length b)"
    by (metis of_nat_le_iff of_nat_mult of_nat_numeral)
  then show ?thesis
    by (auto simp: ratio_def calculate_ratio_def divide_le_eq_1)
qed


section \<open>A sequence matches itself completely\<close>

lemma clean_run_step:
  "clean_run a j = (if popular a (a ! j) then 0 else run_before a j + 1)"
  by (cases j) (simp_all add: run_before_def)

lemma inner_loop_append:
  "\<forall>j \<in> set js1. j < bhi \<Longrightarrow>
     inner_loop i blo bhi m (js1 @ js2) st = inner_loop i blo bhi m js2 (inner_loop i blo bhi m js1 st)"
proof (induction js1 arbitrary: st)
  case Nil
  then show ?case by simp
next
  case (Cons j js1)
  obtain bi bj bs m' where st: "st = ((bi, bj, bs), m')" by (cases st) auto
  show ?case using Cons by (simp add: st Let_def)
qed

lemma j2lenget_le:
  assumes "prev_row a i m"
  shows "j2lenget m j \<le> run_before a j \<and> j2lenget m j \<le> run_before a i"
  using assms by (auto simp: prev_row_def j2lenget_def run_before_def split: option.splits)

lemma j2lenget_diag:
  assumes "prev_row a i m"
  shows "j2lenget m i = run_before a i"
proof (cases "0 < i \<and> \<not> popular a (a ! (i - 1))")
  case True
  then show ?thesis using assms by (simp add: prev_row_def j2lenget_def)
next
  case False
  then have "run_before a i = 0"
    by (cases i) (auto simp: run_before_def clean_run_step)
  then show ?thesis using j2lenget_le[OF assms, of i] by simp
qed

lemma inner_loop_off_diagonal:
  assumes "prev_row a i m" "\<not> popular a (a ! i)"
    and "\<forall>j \<in> set js. j < bhi \<and> a ! j = a ! i \<and> (clean_run a j \<le> bs \<or> clean_run a i \<le> bs)"
    and "this_row a i m'"
  shows "fst (inner_loop i 0 bhi m js ((bi, bj, bs), m')) = (bi, bj, bs)
         \<and> this_row a i (snd (inner_loop i 0 bhi m js ((bi, bj, bs), m')))
         \<and> (\<forall>j. j \<notin> set js \<longrightarrow> snd (inner_loop i 0 bhi m js ((bi, bj, bs), m')) j = m' j)"
  using assms(3,4)
proof (induction js arbitrary: m')
  case Nil
  then show ?case by simp
next
  case (Cons j js)
  define k where "k = j2lenget m j + 1"
  from Cons.prems(1) have j: "j < bhi" "a ! j = a ! i"
    "clean_run a j \<le> bs \<or> clean_run a i \<le> bs" by auto
  have rj: "clean_run a j = run_before a j + 1" "clean_run a i = run_before a i + 1"
    using assms(2) j(2) by (simp_all add: clean_run_step)
  have kb: "k \<le> clean_run a j" "k \<le> clean_run a i"
    using j2lenget_le[OF assms(1), of j] by (simp_all add: k_def rj)
  then have nb: "\<not> bs < k" using j(3) by auto
  have t: "this_row a i (m'(j \<mapsto> k))"
    using Cons.prems(2) kb by (auto simp: this_row_def)
  have step: "inner_loop i 0 bhi m (j # js) ((bi, bj, bs), m')
      = inner_loop i 0 bhi m js ((bi, bj, bs), m'(j \<mapsto> k))"
    using j(1) nb by (simp add: k_def Let_def)
  have r: "\<forall>j \<in> set js. j < bhi \<and> a ! j = a ! i \<and> (clean_run a j \<le> bs \<or> clean_run a i \<le> bs)"
    using Cons.prems(1) by simp
  note ih = Cons.IH[OF r t]
  have 1: "fst (inner_loop i 0 bhi m js ((bi, bj, bs), m'(j \<mapsto> k))) = (bi, bj, bs)"
    using ih by (rule conjunct1)
  have 2: "this_row a i (snd (inner_loop i 0 bhi m js ((bi, bj, bs), m'(j \<mapsto> k))))"
    using ih by (elim conjE)
  have 3: "\<forall>j'. j' \<notin> set js \<longrightarrow>
      snd (inner_loop i 0 bhi m js ((bi, bj, bs), m'(j \<mapsto> k))) j' = (m'(j \<mapsto> k)) j'"
    using ih by (elim conjE)
  have 4: "\<forall>j'. j' \<notin> set (j # js) \<longrightarrow>
      snd (inner_loop i 0 bhi m js ((bi, bj, bs), m'(j \<mapsto> k))) j' = m' j'"
    using 3 by simp
  show ?case
    apply (subst step)+
    apply (intro conjI)
      apply (rule 1)
     apply (rule 2)
    apply (rule 4)
    done
qed

lemma b2j_split:
  assumes "i < length a" "\<not> popular a (a ! i)"
  shows "b2j a (a ! i) = filter (\<lambda>j. a ! j = a ! i) [0..<i] @ [i]
           @ filter (\<lambda>j. a ! j = a ! i) [Suc i..<length a]"
proof -
  have "[0..<length a] = [0..<i] @ [i] @ [Suc i..<length a]"
  proof -
    have "[0..<length a] = [0..<i] @ [i..<length a]"
      using assms(1) upt_add_eq_append[of 0 i "length a - i"] by simp
    then show ?thesis using assms(1) by (simp add: upt_conv_Cons)
  qed
  then show ?thesis using assms(2) by (simp add: b2j_def)
qed

lemma this_row_empty: "this_row a i Map.empty"
  by (simp add: this_row_def)

lemma row_step_popular:
  assumes "popular a (a ! i)" "diag_state a i ((bi, bj, bs), m)"
  shows "diag_state a (Suc i) (inner_loop i 0 n m (b2j a (a ! i)) ((bi, bj, bs), Map.empty))"
proof -
  have c: "clean_run a i = 0" using assms(1) by (simp add: clean_run_step)
  have "\<forall>j < Suc i. clean_run a j \<le> bs"
    using assms(2) c by (auto simp: diag_state_def less_Suc_eq)
  then show ?thesis
    using assms by (simp add: b2j_def diag_state_def prev_row_def)
qed

lemma row_step_clean:
  assumes np: "\<not> popular a (a ! i)" and i: "i < length a"
    and d: "diag_state a i ((bi, bj, bs), m)"
  shows "diag_state a (Suc i)
           (inner_loop i 0 (length a) m (b2j a (a ! i)) ((bi, bj, bs), Map.empty))"
proof -
  define n where "n = length a"
  define js1 where "js1 = filter (\<lambda>j. a ! j = a ! i) [0..<i]"
  define js2 where "js2 = filter (\<lambda>j. a ! j = a ! i) [Suc i..<n]"
  define k where "k = clean_run a i"
  from d have diag: "bi = bj" and runs: "\<forall>j < i. clean_run a j \<le> bs" and pr: "prev_row a i m"
    by (simp_all add: diag_state_def)
  have js: "b2j a (a ! i) = js1 @ [i] @ js2"
    unfolding js1_def js2_def n_def by (rule b2j_split[OF i np])
  have b1: "\<forall>j \<in> set js1. j < n" using i by (auto simp: js1_def n_def)
  have c1: "\<forall>j \<in> set js1. j < n \<and> a ! j = a ! i \<and> (clean_run a j \<le> bs \<or> clean_run a i \<le> bs)"
    using i runs by (auto simp: js1_def n_def)
  define st1 where "st1 = inner_loop i 0 n m js1 ((bi, bj, bs), Map.empty)"
  note p1 = inner_loop_off_diagonal[OF pr np c1 this_row_empty, of bi bj, folded st1_def]
  obtain m1 where st1: "st1 = ((bi, bj, bs), m1)" using p1 by (cases st1) auto
  have m1: "this_row a i m1" using p1 by (simp add: st1)
  have kk: "j2lenget m i + 1 = k"
    using j2lenget_diag[OF pr] np by (simp add: k_def clean_run_step)
  define best2 where "best2 = (if bs < k then (i + 1 - k, i + 1 - k, k) else (bi, bj, bs))"
  obtain bi2 bj2 bs2 where best2: "best2 = (bi2, bj2, bs2)" by (cases best2)
  have d2: "bi2 = bj2" "k \<le> bs2" "bs \<le> bs2"
    using best2 diag by (auto simp: best2_def split: if_splits)
  have st2: "inner_loop i 0 n m [i] st1 = ((bi2, bj2, bs2), m1(i \<mapsto> k))"
    using i kk by (simp add: st1 n_def Let_def best2_def[symmetric] best2)
  have m2: "this_row a i (m1(i \<mapsto> k))"
    using m1 by (auto simp: this_row_def k_def)
  have c2: "\<forall>j \<in> set js2. j < n \<and> a ! j = a ! i \<and> (clean_run a j \<le> bs2 \<or> clean_run a i \<le> bs2)"
    using d2(2) by (auto simp: js2_def k_def)
  define st3 where "st3 = inner_loop i 0 n m js2 ((bi2, bj2, bs2), m1(i \<mapsto> k))"
  note p3 = inner_loop_off_diagonal[OF pr np c2 m2, of bi2 bj2, folded st3_def]
  obtain m3 where st3: "st3 = ((bi2, bj2, bs2), m3)" using p3 by (cases st3) auto
  have m3: "this_row a i m3" using p3 by (simp add: st3)
  have "i \<notin> set js2" by (simp add: js2_def)
  then have m3i: "m3 i = Some k" using p3 by (simp add: st3)
  have whole: "inner_loop i 0 n m (b2j a (a ! i)) ((bi, bj, bs), Map.empty) = st3"
  proof -
    have bi: "\<forall>j \<in> set [i]. j < n" using i by (simp add: n_def)
    have "inner_loop i 0 n m (js1 @ [i] @ js2) ((bi, bj, bs), Map.empty)
        = inner_loop i 0 n m ([i] @ js2) st1"
      unfolding st1_def by (rule inner_loop_append[OF b1])
    also have "\<dots> = inner_loop i 0 n m js2 (inner_loop i 0 n m [i] st1)"
      by (rule inner_loop_append[OF bi])
    also have "\<dots> = st3" unfolding st3_def st2 ..
    finally show ?thesis unfolding js .
  qed
  have r: "\<forall>j < Suc i. clean_run a j \<le> bs2"
    using runs d2 by (auto simp: less_Suc_eq k_def)
  have pr': "prev_row a (Suc i) m3"
    using m3 m3i by (auto simp: prev_row_def this_row_def run_before_def k_def)
  show ?thesis
    unfolding n_def[symmetric] whole st3 using d2(1) r pr' by (simp add: diag_state_def)
qed

lemma outer_loop_diag:
  "i \<le> length a \<Longrightarrow> diag_state a i st \<Longrightarrow>
     diag_state a (length a) (outer_loop a a 0 (length a) [i..<length a] st)"
proof (induction "length a - i" arbitrary: i st)
  case 0
  then show ?case by simp
next
  case (Suc n)
  then have lt: "i < length a" by simp
  then have u: "[i..<length a] = i # [Suc i..<length a]" by (simp add: upt_conv_Cons)
  obtain bi bj bs m where st: "st = ((bi, bj, bs), m)" by (cases st) auto
  define st' where "st' = inner_loop i 0 (length a) m (b2j a (a ! i)) ((bi, bj, bs), Map.empty)"
  have d: "diag_state a (Suc i) st'"
    unfolding st'_def
    using row_step_popular[of a i bi bj bs m "length a"] row_step_clean[OF _ lt, of bi bj bs m]
      Suc.prems(2) by (cases "popular a (a ! i)") (auto simp: st)
  have n: "n = length a - Suc i" using Suc.hyps(2) by simp
  have "diag_state a (length a) (outer_loop a a 0 (length a) [Suc i..<length a] st')"
    using Suc.hyps(1)[OF n _ d] lt by simp
  then show ?case by (simp add: u st st'_def)
qed

lemma extend_left_diagonal: "extend_left a a 0 0 False (i, i, k) = (0, 0, k + i)"
proof (induction i arbitrary: k)
  case 0
  then show ?case by (subst extend_left.simps) simp
next
  case (Suc i)
  have "extend_left a a 0 0 False (Suc i, Suc i, k) = extend_left a a 0 0 False (i, i, k + 1)"
    by (subst extend_left.simps) (simp add: isbjunk_def)
  then show ?case using Suc[of "k + 1"] by simp
qed

lemma extend_right_diagonal:
  "k \<le> n \<Longrightarrow> extend_right a a n n False (0, 0, k) = (0, 0, n)"
proof (induction "n - k" arbitrary: k)
  case 0
  then show ?case by (subst extend_right.simps) simp
next
  case (Suc d)
  then have lt: "k < n" by simp
  have "extend_right a a n n False (0, 0, k) = extend_right a a n n False (0, 0, k + 1)"
    using lt by (subst extend_right.simps) (simp add: isbjunk_def)
  moreover have "extend_right a a n n False (0, 0, k + 1) = (0, 0, n)"
    using Suc.hyps(1)[of "k + 1"] Suc.hyps(2) lt by simp
  ultimately show ?case by simp
qed

lemma extend_left_junk_noop: "extend_left a b alo blo True x = x"
  by (cases x) (simp add: extend_left.simps isbjunk_def)

lemma extend_right_junk_noop: "extend_right a b ahi bhi True x = x"
  by (cases x) (simp add: extend_right.simps isbjunk_def)

lemma find_longest_match_self:
  "find_longest_match a a 0 (length a) 0 (length a) = (0, 0, length a)"
proof -
  define st where "st = outer_loop a a 0 (length a) [0..<length a] ((0, 0, 0), Map.empty)"
  have d0: "diag_state a 0 ((0, 0, 0), Map.empty)"
    by (simp add: diag_state_def prev_row_def)
  have d: "diag_state a (length a) st"
    unfolding st_def by (rule outer_loop_diag[OF _ d0]) simp
  have r0: "in_region 0 (length a) 0 (length a) (0, 0, 0)" by (simp add: in_region_def)
  have r: "in_region 0 (length a) 0 (length a) (fst st)"
    unfolding st_def by (rule outer_loop_inv[OF order_refl row_ok_empty r0])
  obtain bi bj bs m where s: "st = ((bi, bj, bs), m)" by (cases st) auto
  from d r have e: "bi = bj" "bi + bs \<le> length a"
    by (simp_all add: s diag_state_def in_region_def)
  have "extend_right a a (length a) (length a) False (extend_left a a 0 0 False (bi, bj, bs))
      = (0, 0, length a)"
    using e by (simp add: extend_left_diagonal extend_right_diagonal)
  then show ?thesis
    by (simp add: find_longest_match_def Let_def st_def[symmetric] s extend_left_junk_noop extend_right_junk_noop)
qed

lemma ratio_self: "ratio a a = 1"
proof (cases "a = []")
  case True
  then show ?thesis by (simp add: ratio_def calculate_ratio_def)
next
  case False
  have q: "queue_loop a a [(0, length a, 0, length a)] [] = [(0, 0, length a)]"
    using False
    by (simp add: queue_loop.simps find_longest_match_self push_regions_def Let_def)
  have "matched (get_matching_blocks a a) = length a"
    by (simp add: matched_get_matching_blocks q) (simp add: matched_def)
  then show ?thesis using False by (simp add: ratio_def calculate_ratio_def)
qed

lemma lower_char_idem: "lower_char (lower_char c) = lower_char c"
proof -
  define n where "n = (of_char c :: nat)"
  define up where "up m = ((65 \<le> m \<and> m \<le> 90) \<or> (192 \<le> m \<and> m \<le> 222 \<and> m \<noteq> 215))" for m :: nat
  have l: "lower_char d = (if up (of_char d) then char_of (of_char d + 32 :: nat) else d)" for d
    by (simp add: lower_char_def Let_def up_def)
  show ?thesis
  proof (cases "up n")
    case False
    then show ?thesis by (simp add: l n_def)
  next
    case True
    then have "n + 32 < 256" by (auto simp: up_def)
    then have "of_char (char_of (n + 32)) = n + 32" by simp
    moreover have "\<not> up (n + 32)" using True by (auto simp: up_def)
    ultimately show ?thesis using True by (simp add: l n_def)
  qed
qed

lemma lower_idem: "lower (lower s) = lower s"
  by (simp add: lower_def lower_char_idem)


section \<open>The scan for duplicates\<close>



























section \<open>Claims on reading, writing, undo and backups\<close>

text \<open>
  Claim C10. Every contact that \<open>read_contacts\<close> returns has a non-empty name, whatever
  the file holds: a row whose name field is empty or only whitespace is dropped, and the
  file reads as if the row were not there.
\<close>

theorem loaded_names_nonempty:
  "(\<forall>c \<in> set (read_contacts f). name c \<noteq> [])
   \<and> (row_field (dict_row header row) ''name'' = [] \<longrightarrow>
        read_contacts (Some (Row header # Row row # rest)) = read_contacts (Some (Row header # rest)))"
proof (intro conjI ballI impI)
  fix c assume "c \<in> set (read_contacts f)"
  then have "well_formed c" by (rule read_contacts_well_formed)
  then show "name c \<noteq> []" by (simp add: well_formed_def)
next
  assume "row_field (dict_row header row) ''name'' = []"
  then show "read_contacts (Some (Row header # Row row # rest)) = read_contacts (Some (Row header # rest))"
    by (simp add: contact_of_row_def)
qed

theorem loaded_names_nonempty_witness:
  "read_contacts (Some padded_file) = [bob]
   \<and> name (hd (read_contacts (Some padded_file))) \<noteq> []
   \<and> row_field (dict_row CSV_FIELDS [''   '', ''5550000'', [], [], ''1'']) ''name'' = []
   \<and> read_contacts (Some (Row CSV_FIELDS # Row [''   '', ''5550000'', [], [], ''1''] # [Row (row_of_contact bob)]))
       = read_contacts (Some (Row CSV_FIELDS # [Row (row_of_contact bob)]))"
proof -
  have r: "read_contacts (Some padded_file) = [bob]" by code_simp
  have h: "row_field (dict_row CSV_FIELDS [''   '', ''5550000'', [], [], ''1'']) ''name'' = []"
    by code_simp
  have a: "\<forall>c \<in> set (read_contacts (Some padded_file)). name c \<noteq> []"
    using loaded_names_nonempty[of "Some padded_file"] by (rule conjunct1)
  then have a': "name (hd (read_contacts (Some padded_file))) \<noteq> []"
    by (simp add: r)
  have b: "read_contacts (Some (Row CSV_FIELDS # Row [''   '', ''5550000'', [], [], ''1''] # [Row (row_of_contact bob)]))
       = read_contacts (Some (Row CSV_FIELDS # [Row (row_of_contact bob)]))"
    using loaded_names_nonempty[THEN conjunct2, THEN mp, OF h] .
  from r a' h b show ?thesis by blast
qed

text \<open>
  Claim C6, amended. Round trip: a collection whose contacts satisfy the data-model
  invariants and have no text field longer than 131072 characters, written with
  \<open>write_contacts\<close> and read back with \<open>read_contacts\<close>, comes back equal; in
  particular it is equal up to the order of the tags. The tag text itself is carried as
  it is: neither the write nor the read re-orders it. Without the bound on the fields,
  what comes back is the collection up to the first contact with a longer field, where
  the reader raises and \<open>read_contacts\<close> returns what it has read so far.
\<close>

theorem write_then_read_roundtrip:
  assumes "list_all well_formed cs"
  shows "read_contacts (csv_file (write_contacts now1 now2 cs st)) = takeWhile within_limit cs
     \<and> (list_all within_limit cs \<longrightarrow>
          read_contacts (csv_file (write_contacts now1 now2 cs st)) = cs
          \<and> map normalize_tags (read_contacts (csv_file (write_contacts now1 now2 cs st)))
              = map normalize_tags cs)"
proof -
  have p: "read_contacts (csv_file (write_contacts now1 now2 cs st)) = takeWhile within_limit cs"
    by (simp add: csv_file_write read_render_prefix[OF assms])
  have q: "takeWhile within_limit cs = cs" if "list_all within_limit cs"
    using that by (simp add: takeWhile_eq_all_conv list_all_iff)
  show ?thesis
  proof (intro conjI impI)
    show "read_contacts (csv_file (write_contacts now1 now2 cs st)) = takeWhile within_limit cs"
      by (rule p)
  next
    assume l: "list_all within_limit cs"
    show "read_contacts (csv_file (write_contacts now1 now2 cs st)) = cs"
      unfolding p by (rule q[OF l])
  next
    assume l: "list_all within_limit cs"
    show "map normalize_tags (read_contacts (csv_file (write_contacts now1 now2 cs st)))
            = map normalize_tags cs"
      unfolding p q[OF l] by (rule refl)
  qed
qed

theorem write_then_read_roundtrip_witness:
  "list_all well_formed [bob, eve]
   \<and> list_all within_limit [bob, eve]
   \<and> read_contacts (csv_file (write_contacts clock_morning clock_morning [bob, eve] fresh_store)) = [bob, eve]
   \<and> tags (normalize_tags bob) = ''a,b''"
proof -
  have h: "list_all well_formed [bob, eve]" by code_simp
  have l: "list_all within_limit [bob, eve]" by code_simp
  have t: "tags (normalize_tags bob) = ''a,b''" by code_simp
  from write_then_read_roundtrip[OF h, of clock_morning clock_morning fresh_store] t h l
  show ?thesis by simp
qed

text \<open>
  A contact with a name of 131073 characters satisfies the data-model invariants; written
  between Bob and Eve, it makes the file read back as Bob alone.
\<close>

theorem long_field_roundtrip_counterexample:
  "list_all well_formed [bob, long_name, eve]
   \<and> read_contacts (csv_file (write_contacts clock_morning clock_morning [bob, long_name, eve] fresh_store))
       = [bob]"
proof -
  have b: "well_formed bob" "well_formed eve" "within_limit bob" by code_simp+
  then have h: "list_all well_formed [bob, long_name, eve]"
    by (simp add: well_formed_long_name)
  show ?thesis
    using h b by (simp add: csv_file_write read_render_prefix not_within_limit_long_name)
qed

text \<open>
  Claim C9. When the retained snapshot is the empty collection, which is what a write
  leaves when it started from a state with no contacts, \<open>undo_last_write\<close> reports that
  no snapshot is available and changes nothing, exactly as when there is no snapshot.
\<close>

theorem undo_with_empty_snapshot:
  "(prev_snapshot st = Some [] \<or> prev_snapshot st = None \<longrightarrow>
      undo_last_write now1 now2 st = (NoSnapshotError, st))
   \<and> (read_contacts (csv_file st) = [] \<longrightarrow>
      prev_snapshot (write_contacts w1 w2 cs st) = Some []
      \<and> undo_last_write now1 now2 (write_contacts w1 w2 cs st)
          = (NoSnapshotError, write_contacts w1 w2 cs st))"
  by (auto simp: undo_last_write_def load_prev_snapshot_def write_contacts_def Let_def
      split: option.splits)

theorem undo_with_empty_snapshot_witness:
  "read_contacts (csv_file fresh_store) = []
   \<and> prev_snapshot (write_contacts clock_morning clock_morning [bob] fresh_store) = Some []
   \<and> undo_last_write clock_noon clock_noon (write_contacts clock_morning clock_morning [bob] fresh_store)
       = (NoSnapshotError, write_contacts clock_morning clock_morning [bob] fresh_store)
   \<and> read_contacts (csv_file (write_contacts clock_morning clock_morning [bob] fresh_store)) = [bob]"
proof -
  have h: "read_contacts (csv_file fresh_store) = []" by (simp add: fresh_store_def)
  have r: "read_contacts (csv_file (write_contacts clock_morning clock_morning [bob] fresh_store)) = [bob]"
    by code_simp
  from undo_with_empty_snapshot[of fresh_store clock_noon clock_noon clock_morning clock_morning "[bob]"] h r
  show ?thesis by simp
qed

text \<open>
  Claim C3, amended. Undo is single-level: after two consecutive persisted writes W1 then
  W2, where the state persisted before W2 holds at least one contact, an undo restores
  exactly the contacts persisted immediately before W2, and a second undo right after it
  fails with \<open>NoSnapshotError\<close>; an undo with no snapshot present also fails with
  \<open>NoSnapshotError\<close>.
\<close>

theorem undo_single_level:
  "(read_contacts (csv_file (write_contacts a1 b1 c1 st)) \<noteq> [] \<longrightarrow>
      fst (undo_last_write a3 b3 (write_contacts a2 b2 c2 (write_contacts a1 b1 c1 st))) = UndoSuccessful
      \<and> read_contacts (csv_file (snd (undo_last_write a3 b3 (write_contacts a2 b2 c2 (write_contacts a1 b1 c1 st)))))
          = read_contacts (csv_file (write_contacts a1 b1 c1 st))
      \<and> undo_last_write a4 b4 (snd (undo_last_write a3 b3 (write_contacts a2 b2 c2 (write_contacts a1 b1 c1 st))))
          = (NoSnapshotError, snd (undo_last_write a3 b3 (write_contacts a2 b2 c2 (write_contacts a1 b1 c1 st)))))
   \<and> (prev_snapshot st = None \<longrightarrow> undo_last_write a3 b3 st = (NoSnapshotError, st))"
proof (intro conjI impI)
  assume ne: "read_contacts (csv_file (write_contacts a1 b1 c1 st)) \<noteq> []"
  note u = undo_after_write[OF ne, of a3 b3 a2 b2 c2]
  show "fst (undo_last_write a3 b3 (write_contacts a2 b2 c2 (write_contacts a1 b1 c1 st))) = UndoSuccessful"
    by (simp add: u)
  show "read_contacts (csv_file (snd (undo_last_write a3 b3 (write_contacts a2 b2 c2 (write_contacts a1 b1 c1 st)))))
          = read_contacts (csv_file (write_contacts a1 b1 c1 st))"
    by (simp add: u csv_file_write read_render_read_render)
  show "undo_last_write a4 b4 (snd (undo_last_write a3 b3 (write_contacts a2 b2 c2 (write_contacts a1 b1 c1 st))))
          = (NoSnapshotError, snd (undo_last_write a3 b3 (write_contacts a2 b2 c2 (write_contacts a1 b1 c1 st))))"
    by (simp add: u undo_no_snapshot)
next
  assume "prev_snapshot st = None"
  then show "undo_last_write a3 b3 st = (NoSnapshotError, st)" by (rule undo_no_snapshot)
qed

text \<open>
  The theorem at a concrete run: from the fresh store, W1 writes Bob, W2 writes Bob and
  Eve, and the undo brings back Bob alone, not the empty state from before W1.
\<close>

theorem undo_single_level_witness:
  "read_contacts (csv_file (write_contacts clock_morning clock_morning [bob] fresh_store)) \<noteq> []
   \<and> read_contacts (csv_file (snd (undo_last_write clock_noon clock_noon
         (write_contacts clock_noon clock_noon [bob, eve]
            (write_contacts clock_morning clock_morning [bob] fresh_store))))) = [bob]
   \<and> read_contacts (csv_file fresh_store) = []
   \<and> prev_snapshot fresh_store = None
   \<and> undo_last_write clock_noon clock_noon fresh_store = (NoSnapshotError, fresh_store)"
proof -
  have r: "read_contacts (csv_file (write_contacts clock_morning clock_morning [bob] fresh_store)) = [bob]"
    by code_simp
  then have h: "read_contacts (csv_file (write_contacts clock_morning clock_morning [bob] fresh_store)) \<noteq> []"
    by simp
  have n: "prev_snapshot fresh_store = None" "read_contacts (csv_file fresh_store) = []"
    by (simp_all add: fresh_store_def)
  note t = undo_single_level[of clock_morning clock_morning "[bob]" fresh_store clock_noon clock_noon
      clock_noon clock_noon "[bob, eve]" clock_noon clock_noon]
  from t h r n show ?thesis by simp
qed

text \<open>
  The claim as first stated fails when the state before W2 is empty: W1 writes the empty
  collection, W2 writes Bob, and the undo reports \<open>NoSnapshotError\<close> and leaves Bob in
  the file.
\<close>

theorem undo_after_empty_state_counterexample:
  "undo_last_write clock_noon clock_noon
      (write_contacts clock_noon clock_noon [bob] (write_contacts clock_morning clock_morning [] empty_store))
    = (NoSnapshotError,
       write_contacts clock_noon clock_noon [bob] (write_contacts clock_morning clock_morning [] empty_store))
   \<and> read_contacts (csv_file (write_contacts clock_morning clock_morning [] empty_store)) = []
   \<and> read_contacts (csv_file (write_contacts clock_noon clock_noon [bob]
        (write_contacts clock_morning clock_morning [] empty_store))) = [bob]"
proof (intro conjI)
  have e: "read_contacts (csv_file (write_contacts clock_morning clock_morning [] empty_store)) = []"
    by (simp add: csv_file_write render_contacts_def)
  show "read_contacts (csv_file (write_contacts clock_morning clock_morning [] empty_store)) = []"
    by (rule e)
  show "undo_last_write clock_noon clock_noon
      (write_contacts clock_noon clock_noon [bob] (write_contacts clock_morning clock_morning [] empty_store))
    = (NoSnapshotError,
       write_contacts clock_noon clock_noon [bob] (write_contacts clock_morning clock_morning [] empty_store))"
    by (simp add: undo_last_write_def load_prev_snapshot_def prev_snapshot_write e)
  show "read_contacts (csv_file (write_contacts clock_noon clock_noon [bob]
        (write_contacts clock_morning clock_morning [] empty_store))) = [bob]"
    by code_simp
qed






section \<open>Claim on the validation of e-mail addresses\<close>




section \<open>Claim on the similarity of names\<close>

text \<open>
  Claim C5. The similarity of two names is claimed to be symmetric, reflexive, insensitive
  to case and to lie between 0 and 1. Three of the four hold for all strings: a name has
  similarity 1 with itself, lower-casing both names changes nothing, and the value lies in
  the closed interval from 0 to 1. Symmetry does not hold: the matching blocks are found
  from the first string's side, and the longest block chosen first decides what can still
  be matched around it.
\<close>

theorem name_similarity_properties:
  "name_similarity a a = 1
   \<and> name_similarity (lower a) (lower b) = name_similarity a b
   \<and> 0 \<le> name_similarity a b \<and> name_similarity a b \<le> 1"
  by (simp add: name_similarity_def lower_idem ratio_self ratio_range)

text \<open>
  The names \<open>"Tide"\<close> and \<open>"Diet"\<close> have similarity 1/4 in one order and 1/2 in the other.
\<close>

theorem name_similarity_not_symmetric:
  "name_similarity ''Tide'' ''Diet'' = 1 / 4 \<and> name_similarity ''Diet'' ''Tide'' = 1 / 2"
  by code_simp

section \<open>Claims on the merging of duplicates\<close>

text \<open>
  Claim C8. When the contact file holds fewer than two contacts, none included,
  \<open>merge_duplicates\<close> computes no similarity, reads no decision, merges nothing, and
  leaves both the contacts and the store as they were.
\<close>

theorem merge_duplicates_few_contacts:
  "length (read_contacts (csv_file st)) < 2 \<Longrightarrow>
   (case merge_duplicates auto_threshold lines now1 now2 st of
      (outcome, s, st') \<Rightarrow>
        outcome = NotEnoughContacts \<and> compared s = [] \<and> prompts s = 0 \<and> stdin s = lines
        \<and> merges s = [] \<and> scan_contacts s = read_contacts (csv_file st) \<and> st' = st)"
  by (simp add: merge_duplicates_def Let_def)

text \<open>A file with one contact, and no file at all.\<close>

theorem merge_duplicates_few_contacts_witness:
  "length (read_contacts (csv_file one_store)) < 2
   \<and> length (read_contacts (csv_file empty_store)) < 2
   \<and> fst (merge_duplicates (9 / 10) [''M''] clock_morning clock_noon one_store) = NotEnoughContacts
   \<and> compared (fst (snd (merge_duplicates (9 / 10) [''M''] clock_morning clock_noon one_store))) = []
   \<and> prompts (fst (snd (merge_duplicates (9 / 10) [''M''] clock_morning clock_noon one_store))) = 0
   \<and> stdin (fst (snd (merge_duplicates (9 / 10) [''M''] clock_morning clock_noon one_store))) = [''M'']
   \<and> snd (snd (merge_duplicates (9 / 10) [''M''] clock_morning clock_noon one_store)) = one_store
   \<and> snd (snd (merge_duplicates (9 / 10) [''M''] clock_morning clock_noon empty_store)) = empty_store
   \<and> prompts (fst (snd (merge_duplicates (9 / 10) [''M''] clock_morning clock_noon empty_store))) = 0"
proof -
  have h1: "length (read_contacts (csv_file one_store)) < 2" by code_simp
  have h2: "length (read_contacts (csv_file empty_store)) < 2" by code_simp
  from merge_duplicates_few_contacts[OF h1, where auto_threshold = "9 / 10" and lines = "[''M'']"
         and ?now1.0 = clock_morning and ?now2.0 = clock_noon]
       merge_duplicates_few_contacts[OF h2, where auto_threshold = "9 / 10" and lines = "[''M'']"
         and ?now1.0 = clock_morning and ?now2.0 = clock_noon]
       h1 h2
  show ?thesis by (simp add: case_prod_beta)
qed

text \<open>
  Claim C1. After the answer \<open>A\<close> to a prompt, every later pair of similar names is
  claimed to be merged with no further prompt. The prompt itself offers
  \<open>A to always auto-merge similar\<close>, but the branch for \<open>A\<close> only continues the loop, as
  the end of the loop body would anyway. Of three contacts all named Ann, with the answers
  \<open>A\<close> and \<open>S\<close>, the first pair is merged, the second pair is prompted for, and the answer
  \<open>S\<close> leaves it unmerged: two prompts, one merge, two contacts written. With the answer
  \<open>A\<close> alone, the second prompt finds no line to read, the operation fails and nothing is
  written.
\<close>

theorem auto_merge_prompts_again:
  "name_similarity ''Ann'' ''Ann'' = 1
   \<and> map name (read_contacts (csv_file ann_store)) = [''Ann'', ''Ann'', ''Ann'']
   \<and> prompts (fst (snd (merge_duplicates (9 / 10) [''A'', ''S''] clock_morning clock_noon ann_store))) = 2
   \<and> merges (fst (snd (merge_duplicates (9 / 10) [''A'', ''S''] clock_morning clock_noon ann_store)))
       = [(0, 1)]
   \<and> length (read_contacts (csv_file
         (snd (snd (merge_duplicates (9 / 10) [''A'', ''S''] clock_morning clock_noon ann_store))))) = 2
   \<and> fst (merge_duplicates (9 / 10) [''A''] clock_morning clock_noon ann_store) = DuplicateMergeFailed
   \<and> snd (snd (merge_duplicates (9 / 10) [''A''] clock_morning clock_noon ann_store)) = ann_store"
  by code_simp



end
